theory Spec2Isabelle
  imports Main "HOL-Library.Sublist"
begin

section \<open>Python values and strings\<close>

text \<open>
  A Python \<open>str\<close> is a \<open>string\<close>: a list of characters, each of them one code point, the
  code of the character (\<open>of_char\<close>) being the code point. The type reaches the code points
  below 256, and on these the character operations of the program are the ones of Python:
  \<open>str.lower\<close> moves the capital letters \<open>A\<close> to \<open>Z\<close> and 192 to 222 (without the sign 215) up
  by 32, the classes written out in a regular expression (\<open>[a-z]\<close>, \<open>[0-9]\<close>) hold the
  characters they list, and \<open>\w\<close> and \<open>\b\<close>, which follow Unicode on a \<open>str\<close>, count the letters
  and numbers above 127 as word characters.

  Values whose type the program does not fix (a company name read from a table, the decoded
  JSON body of a response) are \<open>pyval\<close>s; a dictionary is an association list with distinct
  keys, and a number counts only through its truth value and through having no string methods.
\<close>

datatype pyval =
    PNone
  | PBool bool
  | PNum int
  | PNaN
  | PStr string
  | PList "pyval list"
  | PDict "(string \<times> pyval) list"

datatype exn =
    AttributeError
  | TypeError
  | IndexError
  | ValueError
  | RequestException
  | JSONDecodeError
  | DNSException

fun truthy :: "pyval \<Rightarrow> bool" where
  "truthy PNone = False"
| "truthy (PBool b) = b"
| "truthy (PNum n) = (n \<noteq> 0)"
| "truthy PNaN = True"
| "truthy (PStr s) = (s \<noteq> [])"
| "truthy (PList xs) = (xs \<noteq> [])"
| "truthy (PDict kvs) = (kvs \<noteq> [])"

definition is_upper :: "char \<Rightarrow> bool" where
  "is_upper c = (65 \<le> (of_char c :: nat) \<and> (of_char c :: nat) \<le> 90)"

definition is_lower :: "char \<Rightarrow> bool" where
  "is_lower c = (97 \<le> (of_char c :: nat) \<and> (of_char c :: nat) \<le> 122)"

definition is_digit :: "char \<Rightarrow> bool" where
  "is_digit c = (48 \<le> (of_char c :: nat) \<and> (of_char c :: nat) \<le> 57)"

text \<open>The characters that \<open>str.lower\<close> changes: \<open>A\<close> to \<open>Z\<close>, and the capital letters from
  192 to 222, among which 215 is the multiplication sign.\<close>

definition is_cased_upper :: "char \<Rightarrow> bool" where
  "is_cased_upper c =
     (is_upper c \<or>
      (192 \<le> (of_char c :: nat) \<and> (of_char c :: nat) \<le> 214) \<or>
      (216 \<le> (of_char c :: nat) \<and> (of_char c :: nat) \<le> 222))"

definition lower_char :: "char \<Rightarrow> char" where
  "lower_char c = (if is_cased_upper c then char_of ((of_char c :: nat) + 32) else c)"

definition lower :: "string \<Rightarrow> string" where
  "lower s = map lower_char s"

text \<open>\<open>a in b\<close> on strings: \<open>a\<close> occurs in \<open>b\<close> as a contiguous run.\<close>

fun str_in :: "string \<Rightarrow> string \<Rightarrow> bool" where
  "str_in a [] = (a = [])"
| "str_in a (c # cs) = (prefix a (c # cs) \<or> str_in a cs)"

text \<open>\<open>s.replace(old, new)\<close> for a non-empty \<open>old\<close>: occurrences are replaced from the left,
  without overlap.\<close>

function replace :: "string \<Rightarrow> string \<Rightarrow> string \<Rightarrow> string" where
  "replace old new [] = []"
| "replace old new (c # cs) =
     (if old \<noteq> [] \<and> prefix old (c # cs)
      then new @ replace old new (drop (length old) (c # cs))
      else c # replace old new cs)"
  by pat_completeness auto
termination
  by (relation "measure (\<lambda>(old, new, s). length s)") auto

text \<open>\<open>s.split(sep)\<close> for a one-character separator.\<close>

fun split :: "char \<Rightarrow> string \<Rightarrow> string list" where
  "split sep [] = [[]]"
| "split sep (c # cs) =
     (if c = sep then [] # split sep cs
      else (case split sep cs of [] \<Rightarrow> [[c]] | w # ws \<Rightarrow> (c # w) # ws))"

text \<open>\<open>s.endswith(suffixes)\<close> with a tuple of suffixes.\<close>

definition endswith :: "string \<Rightarrow> string list \<Rightarrow> bool" where
  "endswith s sufs = list_ex (\<lambda>x. suffix x s) sufs"

section \<open>scraping_url.py\<close>

subsection \<open>clean_name\<close>

text \<open>\<open>\w\<close> on a \<open>str\<close>: the underscore and every character that is alphanumeric in Unicode.
  Above 127 these are the ordinal indicators 170 and 186, the superscript digits 178, 179 and
  185, the micro sign 181, the fractions 188 to 190, and the letters from 192 to 255 without the
  multiplication sign 215 and the division sign 247.\<close>

definition is_word :: "char \<Rightarrow> bool" where
  "is_word c =
     (is_lower c \<or> is_upper c \<or> is_digit c \<or> c = CHR ''_'' \<or>
      (of_char c :: nat) \<in> {170, 178, 179, 181, 185, 186, 188, 189, 190} \<or>
      (192 \<le> (of_char c :: nat) \<and> (of_char c :: nat) \<le> 214) \<or>
      (216 \<le> (of_char c :: nat) \<and> (of_char c :: nat) \<le> 246) \<or>
      (248 \<le> (of_char c :: nat) \<and> (of_char c :: nat) \<le> 255))"

definition LEGAL_SUFFIXES :: "string list" where
  "LEGAL_SUFFIXES = [''inc'', ''llc'', ''ltd'', ''corp'', ''limited'', ''company'', ''co'']"

text \<open>\<open>\b\<close> at a position: the character before (a word character or not; none counts as
  not) and the character after differ in being word characters.\<close>

definition word_boundary :: "bool \<Rightarrow> string \<Rightarrow> bool" where
  "word_boundary prev_word rest =
     (prev_word \<noteq> (case rest of [] \<Rightarrow> False | c # _ \<Rightarrow> is_word c))"

text \<open>One alternative of \<open>\b(inc|llc|ltd|corp|limited|company|co)\b\<close> matches at the head of
  \<open>rest\<close>.\<close>

definition alt_match :: "bool \<Rightarrow> string \<Rightarrow> string \<Rightarrow> bool" where
  "alt_match prev_word rest alt =
     (alt \<noteq> [] \<and> word_boundary prev_word rest \<and> prefix alt rest \<and>
      word_boundary (is_word (last alt)) (drop (length alt) rest))"

text \<open>\<open>re.sub(r'\b(inc|llc|ltd|corp|limited|company|co)\b', '', name)\<close>: scanning from the
  left, at each position the alternatives are tried in order; a match is deleted and the scan
  goes on behind it, otherwise the character is kept.\<close>

function strip_suffixes :: "bool \<Rightarrow> string \<Rightarrow> string" where
  "strip_suffixes prev_word [] = []"
| "strip_suffixes prev_word (c # cs) =
     (case find (alt_match prev_word (c # cs)) LEGAL_SUFFIXES of
        Some alt \<Rightarrow> strip_suffixes (is_word (last alt)) (drop (length alt) (c # cs))
      | None \<Rightarrow> c # strip_suffixes (is_word c) cs)"
  by pat_completeness auto
termination
proof (relation "measure (\<lambda>(p, s). length s)")
  show "wf (measure (\<lambda>(p, s). length s))" by simp
next
  fix prev_word c cs alt
  assume "find (alt_match prev_word (c # cs)) LEGAL_SUFFIXES = Some alt"
  then have "alt_match prev_word (c # cs) alt"
    by (auto simp: find_Some_iff)
  then have "alt \<noteq> []"
    by (simp add: alt_match_def)
  then show "((is_word (last alt), drop (length alt) (c # cs)), (prev_word, c # cs))
      \<in> measure (\<lambda>(p, s). length s)"
    by (cases alt) auto
next
  fix prev_word c cs
  show "((is_word c, cs), (prev_word, c # cs)) \<in> measure (\<lambda>(p, s). length s)"
    by simp
qed

text \<open>The three rewriting steps of \<open>clean_name\<close> on a string: \<open>lower\<close>, the deletion of the legal
  suffixes, and \<open>re.sub(r'[^a-z0-9]', '', name)\<close>.\<close>

definition clean_str :: "string \<Rightarrow> string" where
  "clean_str s = filter (\<lambda>c. is_lower c \<or> is_digit c) (strip_suffixes False (lower s))"

text \<open>\<open>if not name: return ""\<close> answers for every falsy value; of the others only a string has
  \<open>lower\<close>.\<close>

definition clean_name :: "pyval \<Rightarrow> exn + string" where
  "clean_name name =
     (if \<not> truthy name then Inr []
      else (case name of
              PStr s \<Rightarrow> Inr (clean_str s)
            | _ \<Rightarrow> Inl AttributeError))"

subsection \<open>_sync_clearbit\<close>

record response =
  status_code :: int
  json_body :: "pyval option"

text \<open>\<open>item.get(key, default)\<close>: only a dictionary has the method.\<close>

fun py_get :: "pyval \<Rightarrow> string \<Rightarrow> pyval \<Rightarrow> exn + pyval" where
  "py_get (PDict kvs) key dflt = Inr (case map_of kvs key of Some v \<Rightarrow> v | None \<Rightarrow> dflt)"
| "py_get _ key dflt = Inl AttributeError"

text \<open>\<open>data[:3]\<close> and the items the \<open>for\<close> loop then sees.\<close>

fun slice3 :: "pyval \<Rightarrow> exn + pyval list" where
  "slice3 (PList xs) = Inr (take 3 xs)"
| "slice3 (PStr s) = Inr (map (\<lambda>c. PStr [c]) (take 3 s))"
| "slice3 _ = Inl TypeError"

datatype notice = ApiMatch | ApiNameMatch

text \<open>The loop over the items. The result carries which of the two notices was printed.\<close>

fun match_items :: "string \<Rightarrow> pyval list \<Rightarrow> exn + (notice \<times> string) option" where
  "match_items clean_query [] = Inr None"
| "match_items clean_query (item # items) =
     (case py_get item ''domain'' (PStr []) of
        Inl e \<Rightarrow> Inl e
      | Inr domain \<Rightarrow>
     (case py_get item ''name'' (PStr []) of
        Inl e \<Rightarrow> Inl e
      | Inr nm \<Rightarrow>
     (case clean_name nm of
        Inl e \<Rightarrow> Inl e
      | Inr item_name \<Rightarrow>
     (case domain of
        PStr d \<Rightarrow>
          if str_in clean_query (replace ''.'' [] d)
          then Inr (Some (ApiMatch, ''https://'' @ d))
          else if str_in clean_query item_name \<or> str_in item_name clean_query
          then Inr (Some (ApiNameMatch, ''https://'' @ d))
          else match_items clean_query items
      | _ \<Rightarrow> Inl AttributeError))))"

text \<open>The body of the \<open>try\<close>; \<open>Inr None\<close> is falling out of it without a \<open>return\<close>.
  The request is a parameter: \<open>None\<close> is a transport error raised by \<open>get\<close>, and a
  \<open>json_body\<close> of \<open>None\<close> is \<open>response.json()\<close> raising.\<close>

definition clearbit_try ::
  "(pyval \<Rightarrow> response option) \<Rightarrow> pyval \<Rightarrow> exn + (notice \<times> string) option" where
  "clearbit_try get company_name =
     (case get company_name of
        None \<Rightarrow> Inl RequestException
      | Some resp \<Rightarrow>
          if status_code resp = 200 then
            (case json_body resp of
               None \<Rightarrow> Inl JSONDecodeError
             | Some data \<Rightarrow>
                 if truthy data then
                   (case clean_name company_name of
                      Inl e \<Rightarrow> Inl e
                    | Inr clean_query \<Rightarrow>
                        (case slice3 data of
                           Inl e \<Rightarrow> Inl e
                         | Inr items \<Rightarrow> match_items clean_query items))
                 else Inr None)
          else Inr None)"

text \<open>The outcome of a call is a raised exception (\<open>Inl\<close>) or a returned value (\<open>Inr\<close>); the
  bare \<open>except: pass\<close> turns every exception of the body into the final \<open>return None\<close>.\<close>

definition sync_clearbit :: "(pyval \<Rightarrow> response option) \<Rightarrow> pyval \<Rightarrow> exn + string option" where
  "sync_clearbit get company_name =
     (case clearbit_try get company_name of
        Inl e \<Rightarrow> Inr None
      | Inr r \<Rightarrow> Inr (map_option snd r))"

subsection \<open>fetch_api and get_urls_api\<close>

text \<open>\<open>fetch_api\<close> runs the worker behind a semaphore in a thread; its outcome is the
  worker's.\<close>

definition fetch_api :: "(pyval \<Rightarrow> response option) \<Rightarrow> pyval \<Rightarrow> exn + string option" where
  "fetch_api get company_name = sync_clearbit get company_name"

text \<open>\<open>await asyncio.gather(*tasks)\<close>: the results in the order of the tasks, or the exception
  of a task that raised.\<close>

fun gather :: "(exn + 'a) list \<Rightarrow> exn + 'a list" where
  "gather [] = Inr []"
| "gather (t # ts) =
     (case t of
        Inl e \<Rightarrow> Inl e
      | Inr v \<Rightarrow> (case gather ts of Inl e \<Rightarrow> Inl e | Inr vs \<Rightarrow> Inr (v # vs)))"

text \<open>The loop \<open>for i, url in enumerate(api_results)\<close>; an assignment outside the list
  raises.\<close>

fun store_urls :: "nat \<Rightarrow> string option list \<Rightarrow> string option list \<Rightarrow> exn + string option list" where
  "store_urls i [] results = Inr results"
| "store_urls i (url # urls) results =
     (case url of
        None \<Rightarrow> store_urls (Suc i) urls results
      | Some u \<Rightarrow>
          if u \<noteq> [] then
            (if i < length results then store_urls (Suc i) urls (results[i := Some u])
             else Inl IndexError)
          else store_urls (Suc i) urls results)"

definition get_urls_api ::
  "(pyval \<Rightarrow> response option) \<Rightarrow> pyval list \<Rightarrow> exn + string option list" where
  "get_urls_api get company_list =
     (let total = length company_list;
          results = replicate total None;
          tasks = map (fetch_api get) company_list
      in case gather tasks of
           Inl e \<Rightarrow> Inl e
         | Inr api_results \<Rightarrow> store_urls 0 api_results results)"

section \<open>get_email.py\<close>

definition BAD_EXTENSIONS :: "string list" where
  "BAD_EXTENSIONS = [''.png'', ''.jpg'', ''.jpeg'', ''.gif'', ''.css'', ''.js'', ''.svg'', ''.webp'']"

definition TARGET_KEYWORDS :: "string list" where
  "TARGET_KEYWORDS =
     [''contact'', ''contact us'', ''support'', ''about'', ''about us'', ''connect'', ''reach'',
      ''help'']"

text \<open>What the program does on the network, in the order it does it.\<close>

datatype event = Get string | MxQuery string

subsection \<open>check_mx_records\<close>

text \<open>\<open>dns.resolver.resolve(domain, 'MX')\<close> is a parameter: it raises (\<open>Inl\<close>) or answers with
  the records found, and \<open>bool(records)\<close> holds of an answer that has one. \<open>split('@')[1]\<close>
  raises on a string without \<open>@\<close>, before any query is sent.\<close>

definition check_mx_try ::
  "(string \<Rightarrow> exn + string list) \<Rightarrow> string \<Rightarrow> event list \<times> (exn + bool)" where
  "check_mx_try resolve email =
     (case split CHR ''@'' email of
        _ # domain # _ \<Rightarrow>
          ([MxQuery domain],
           (case resolve domain of Inl e \<Rightarrow> Inl e | Inr records \<Rightarrow> Inr (records \<noteq> [])))
      | _ \<Rightarrow> ([], Inl IndexError))"

definition check_mx_records ::
  "(string \<Rightarrow> exn + string list) \<Rightarrow> string \<Rightarrow> event list \<times> (exn + bool)" where
  "check_mx_records resolve email =
     (case check_mx_try resolve email of
        (evs, Inl e) \<Rightarrow> (evs, Inr False)
      | (evs, Inr b) \<Rightarrow> (evs, Inr b))"

subsection \<open>EMAIL_REGEX and re.findall\<close>

text \<open>The three character classes of
  \<open>[a-zA-Z0-9._%+-]+@[a-zA-z0-9.-]+\.[a-zA-Z]{2,}\<close>. The range \<open>A-z\<close> of the second one runs
  over the codes 65 to 122.\<close>

definition is_local :: "char \<Rightarrow> bool" where
  "is_local c = (is_lower c \<or> is_upper c \<or> is_digit c \<or> c \<in> set ''._%+-'')"

definition is_domain_char :: "char \<Rightarrow> bool" where
  "is_domain_char c =
     (is_lower c \<or> (65 \<le> (of_char c :: nat) \<and> (of_char c :: nat) \<le> 122) \<or> is_digit c \<or>
      c = CHR ''.'' \<or> c = CHR ''-'')"

definition is_alpha :: "char \<Rightarrow> bool" where
  "is_alpha c = (is_lower c \<or> is_upper c)"

text \<open>\<open>\.[a-zA-Z]{2,}\<close> at the head of \<open>s\<close>, as the number of characters matched. The
  quantifier is greedy and nothing follows it, so it takes the whole run of letters.\<close>

definition match_tld :: "string \<Rightarrow> nat option" where
  "match_tld s =
     (case s of
        [] \<Rightarrow> None
      | c # t \<Rightarrow>
          if c = CHR ''.'' \<and> 2 \<le> length (takeWhile is_alpha t)
          then Some (1 + length (takeWhile is_alpha t))
          else None)"

text \<open>\<open>[a-zA-z0-9.-]+\<close> and what follows it: the quantifier first takes the whole run (\<open>k\<close>
  characters) and gives one character back at each failure of the rest.\<close>

fun match_domain :: "string \<Rightarrow> nat \<Rightarrow> nat option" where
  "match_domain s 0 = None"
| "match_domain s (Suc k) =
     (case match_tld (drop (Suc k) s) of
        Some n \<Rightarrow> Some (Suc k + n)
      | None \<Rightarrow> match_domain s k)"

text \<open>\<open>[a-zA-Z0-9._%+-]+\<close> and what follows it, in the same way.\<close>

fun match_local :: "string \<Rightarrow> nat \<Rightarrow> nat option" where
  "match_local s 0 = None"
| "match_local s (Suc l) =
     (case drop (Suc l) s of
        [] \<Rightarrow> match_local s l
      | c # rest \<Rightarrow>
          if c = CHR ''@'' then
            (case match_domain rest (length (takeWhile is_domain_char rest)) of
               Some n \<Rightarrow> Some (Suc l + 1 + n)
             | None \<Rightarrow> match_local s l)
          else match_local s l)"

text \<open>The length of the match of \<open>EMAIL_REGEX\<close> that starts at the head of \<open>s\<close>.\<close>

definition match_email :: "string \<Rightarrow> nat option" where
  "match_email s = match_local s (length (takeWhile is_local s))"

text \<open>\<open>re.findall(EMAIL_REGEX, html)\<close>: the matches from left to right, each search starting
  where the match before ended.\<close>

function findall :: "string \<Rightarrow> string list" where
  "findall [] = []"
| "findall (c # cs) =
     (case match_email (c # cs) of
        Some n \<Rightarrow> take n (c # cs) # findall (drop n (c # cs))
      | None \<Rightarrow> findall cs)"
  by pat_completeness auto
termination
proof (relation "measure length")
  show "wf (measure length)" by simp
next
  fix c :: char and cs n
  assume m: "match_email (c # cs) = Some n"
  have "\<And>l. match_local (c # cs) l = Some n \<Longrightarrow> 0 < n"
  proof -
    fix l
    show "match_local (c # cs) l = Some n \<Longrightarrow> 0 < n"
      by (induction l) (auto split: list.splits if_splits option.splits)
  qed
  with m have "0 < n"
    by (simp add: match_email_def)
  then show "(drop n (c # cs), c # cs) \<in> measure length"
    by (cases n) auto
next
  fix c :: char and cs
  show "(cs, c # cs) \<in> measure length"
    by simp
qed

subsection \<open>extract_valid_emails\<close>

text \<open>The three replacements on the page text.\<close>

definition deobfuscate :: "string \<Rightarrow> string" where
  "deobfuscate html = replace '' at '' ''@'' (replace ''(at)'' ''@'' (replace '' [at] '' ''@'' html))"

text \<open>The loop over the raw matches. The set \<open>found\<close> is a list without duplicates.
  \<open>email.split('@')[1]\<close> raises when the list has one element.\<close>

fun scan_emails :: "string \<Rightarrow> string list \<Rightarrow> string list \<Rightarrow> exn + string list" where
  "scan_emails site_name [] found = Inr found"
| "scan_emails site_name (raw # raws) found =
     (let email = lower raw in
      if endswith email BAD_EXTENSIONS then scan_emails site_name raws found
      else if length email > 50 then scan_emails site_name raws found
      else (case split CHR ''@'' email of
              _ # email_domains # _ \<Rightarrow>
                if str_in site_name email_domains
                then scan_emails site_name raws (List.insert email found)
                else scan_emails site_name raws found
            | _ \<Rightarrow> Inl IndexError))"

text \<open>\<open>tldextract.extract(current_url).domain\<close> is a parameter, \<open>tld\<close>. The order in which
  \<open>list(found)\<close> enumerates the set is not fixed by the program: it is a parameter too, a key
  \<open>order\<close> by which the elements are listed.\<close>

definition extract_valid_emails ::
  "(string \<Rightarrow> nat) \<Rightarrow> (string \<Rightarrow> string) \<Rightarrow> string \<Rightarrow> string \<Rightarrow> exn + string list" where
  "extract_valid_emails order tld html current_url =
     (let raw_emails = findall (deobfuscate html);
          site_name = lower (tld current_url)
      in case scan_emails site_name raw_emails [] of
           Inl e \<Rightarrow> Inl e
         | Inr found \<Rightarrow> Inr (sort_key order found))"

subsection \<open>_scrape_sync_email\<close>

text \<open>The argument is a cell of the table: \<open>None\<close>, a missing value (\<open>nan\<close>) or a string.\<close>

datatype cell = Absent | NaN | Text string

record page =
  resp_text :: string
  resp_url :: string

record anchor =
  a_text :: string
  a_href :: string

text \<open>What the program reaches outside itself: \<open>session.get\<close> (\<open>None\<close> when it raises), the
  resolver, the anchors with an \<open>href\<close> that the parser finds in a page, \<open>urljoin\<close> (which
  raises \<open>ValueError\<close> on a link it cannot split, \<open>http://[bad\<close> for one), \<open>tldextract\<close>, and
  the order of enumeration of a set.\<close>

record world =
  http_get :: "string \<Rightarrow> page option"
  resolve_mx :: "string \<Rightarrow> exn + string list"
  find_anchors :: "string \<Rightarrow> anchor list"
  urljoin :: "string \<Rightarrow> string \<Rightarrow> exn + string"
  tld_domain :: "string \<Rightarrow> string"
  set_order :: "string \<Rightarrow> nat"

text \<open>\<open>any(key in s for key in TARGET_KEYWORDS)\<close>.\<close>

definition has_keyword :: "string \<Rightarrow> bool" where
  "has_keyword s = list_ex (\<lambda>key. str_in key s) TARGET_KEYWORDS"

text \<open>The loop over the anchors, with \<open>target_link\<close> as it stands; \<open>break\<close> ends it, and so
  does \<open>urljoin\<close> when it raises.\<close>

fun select_link ::
  "(string \<Rightarrow> string \<Rightarrow> exn + string) \<Rightarrow> string \<Rightarrow> anchor list \<Rightarrow> string option \<Rightarrow>
     exn + string option" where
  "select_link join final_url [] target_link = Inr target_link"
| "select_link join final_url (a # as) target_link =
     (let text = lower (a_text a); href = lower (a_href a) in
      if has_keyword text \<or> has_keyword href then
        (case join final_url (a_href a) of
           Inl e \<Rightarrow> Inl e
         | Inr link \<Rightarrow>
             if str_in ''contact'' text \<or> str_in ''contact'' href
             then Inr (Some link)
             else select_link join final_url as (Some link))
      else select_link join final_url as target_link)"

text \<open>The branch \<open>if not emails\<close>: the link is chosen and, when there is one, fetched; a failure
  of the fetch or of the extraction leaves \<open>emails\<close> as it was, empty. An exception of the loop
  over the anchors is not caught here.\<close>

definition secondary_emails ::
  "world \<Rightarrow> string \<Rightarrow> string \<Rightarrow> event list \<times> (exn + string list)" where
  "secondary_emails w html final_url =
     (case select_link (urljoin w) final_url (find_anchors w html) None of
        Inl e \<Rightarrow> ([], Inl e)
      | Inr None \<Rightarrow> ([], Inr [])
      | Inr (Some target_link) \<Rightarrow>
          if target_link = [] then ([], Inr [])
          else (case http_get w target_link of
                  None \<Rightarrow> ([Get target_link], Inr [])
                | Some resp_contact \<Rightarrow>
                    (case extract_valid_emails (set_order w) (tld_domain w)
                            (resp_text resp_contact) final_url of
                       Inl e \<Rightarrow> ([Get target_link], Inr [])
                     | Inr emails \<Rightarrow> ([Get target_link], Inr emails))))"

text \<open>The value of \<open>emails\<close> when the program reaches \<open>if emails\<close>, from the fetched home
  page, or the exception raised on the way.\<close>

definition candidates :: "world \<Rightarrow> page \<Rightarrow> event list \<times> (exn + string list)" where
  "candidates w resp =
     (let html = resp_text resp; final_url = resp_url resp in
      case extract_valid_emails (set_order w) (tld_domain w) html final_url of
        Inl e \<Rightarrow> ([], Inl e)
      | Inr emails \<Rightarrow>
          if emails = [] then secondary_emails w html final_url
          else ([], Inr emails))"

text \<open>The last block: the first candidate is kept or dropped by its MX records.\<close>

definition verify_first :: "world \<Rightarrow> string list \<Rightarrow> event list \<times> (exn + string option)" where
  "verify_first w emails =
     (case emails of
        [] \<Rightarrow> ([], Inr None)
      | candidate # _ \<Rightarrow>
          (case check_mx_records (resolve_mx w) candidate of
             (evs, Inl e) \<Rightarrow> (evs, Inl e)
           | (evs, Inr ok) \<Rightarrow> (evs, Inr (if ok then Some candidate else None))))"

text \<open>The whole function: the events in order, and the outcome. The outer \<open>except: pass\<close> leads
  every exception to the final \<open>return None\<close>.\<close>

definition scrape_sync_email :: "world \<Rightarrow> cell \<Rightarrow> event list \<times> (exn + string option)" where
  "scrape_sync_email w website_url =
     (case website_url of
        Absent \<Rightarrow> ([], Inr None)
      | NaN \<Rightarrow> ([], Inr None)
      | Text u \<Rightarrow>
          if u = [] then ([], Inr None)
          else (case http_get w u of
                  None \<Rightarrow> ([Get u], Inr None)
                | Some resp \<Rightarrow>
                    (case candidates w resp of
                       (evs, Inl e) \<Rightarrow> (Get u # evs, Inr None)
                     | (evs, Inr emails) \<Rightarrow>
                         (case verify_first w emails of
                            (evs', Inl e) \<Rightarrow> (Get u # evs @ evs', Inr None)
                          | (evs', Inr r) \<Rightarrow> (Get u # evs @ evs', Inr r)))))"

section \<open>Vocabulary of the properties\<close>

subsection \<open>Suggestions\<close>

text \<open>A well-formed suggestion is a dictionary whose \<open>domain\<close> and \<open>name\<close> are strings; it is
  read as the pair of the two. The two rules of the matcher on such an item, and the first item
  of a list that one of them accepts, with the notice of the rule that accepted it.\<close>

fun suggestion :: "pyval \<Rightarrow> (string \<times> string) option" where
  "suggestion (PDict kvs) =
     (case map_of kvs ''domain'' of
        Some (PStr d) \<Rightarrow> (case map_of kvs ''name'' of Some (PStr n) \<Rightarrow> Some (d, n) | _ \<Rightarrow> None)
      | _ \<Rightarrow> None)"
| "suggestion _ = None"

definition rule1 :: "string \<Rightarrow> pyval \<Rightarrow> bool" where
  "rule1 q item =
     (case suggestion item of
        Some (d, n) \<Rightarrow> str_in q (filter (\<lambda>c. c \<noteq> CHR ''.'') d)
      | None \<Rightarrow> False)"

definition rule2 :: "string \<Rightarrow> pyval \<Rightarrow> bool" where
  "rule2 q item =
     (case suggestion item of
        Some (d, n) \<Rightarrow> str_in q (clean_str n) \<or> str_in (clean_str n) q
      | None \<Rightarrow> False)"

definition first_match :: "string \<Rightarrow> pyval list \<Rightarrow> (notice \<times> string) option" where
  "first_match q items =
     (case find (\<lambda>item. rule1 q item \<or> rule2 q item) items of
        None \<Rightarrow> None
      | Some item \<Rightarrow>
          Some (if rule1 q item then ApiMatch else ApiNameMatch,
                ''https://'' @ fst (the (suggestion item))))"

subsection \<open>Email candidates\<close>

text \<open>The text of a candidate behind its first \<open>@\<close>; a string with one \<open>@\<close>; and the three
  tests of the extractor on a lowercased candidate.\<close>

definition after_at :: "string \<Rightarrow> string" where
  "after_at e = tl (dropWhile (\<lambda>c. c \<noteq> CHR ''@'') e)"

definition email_shaped :: "string \<Rightarrow> bool" where
  "email_shaped e = (\<exists>l d. e = l @ CHR ''@'' # d \<and> CHR ''@'' \<notin> set l \<and> CHR ''@'' \<notin> set d)"

definition passes :: "string \<Rightarrow> string \<Rightarrow> bool" where
  "passes site_name e =
     (\<not> endswith e BAD_EXTENSIONS \<and> length e \<le> 50 \<and> str_in site_name (after_at e))"

text \<open>The domain test in the words of the specification: the registrable domain of the
  candidate's domain contains the registrable domain of the site.\<close>

definition spec_domain_ok :: "(string \<Rightarrow> string) \<Rightarrow> string \<Rightarrow> string \<Rightarrow> bool" where
  "spec_domain_ok tld current_url e = str_in (lower (tld current_url)) (tld (after_at e))"

subsection \<open>Anchors\<close>

text \<open>The two tests of the loop over the anchors.\<close>

definition is_keyword_anchor :: "anchor \<Rightarrow> bool" where
  "is_keyword_anchor a = (has_keyword (lower (a_text a)) \<or> has_keyword (lower (a_href a)))"

definition is_contact_anchor :: "anchor \<Rightarrow> bool" where
  "is_contact_anchor a =
     (str_in ''contact'' (lower (a_text a)) \<or> str_in ''contact'' (lower (a_href a)))"

text \<open>The anchors that the loop visits: all of them up to the first one with \<open>contact\<close>, and
  that one.\<close>

fun scanned :: "anchor list \<Rightarrow> anchor list" where
  "scanned [] = []"
| "scanned (a # as) = (if is_contact_anchor a then [a] else a # scanned as)"

section \<open>Example data\<close>

definition acme_items :: "pyval list" where
  "acme_items =
     [PDict [(''name'', PStr ''Acme''), (''domain'', PStr ''acme.io'')],
      PDict [(''name'', PStr ''Other''), (''domain'', PStr ''other.com'')]]"

text \<open>Two names with the letter of code 233, e with an acute accent: the first is that letter
  followed by \<open>co\<close>, the second is \<open>Art D\<close>, the letter, and \<open>co\<close>; and a suggestion for the
  second.\<close>

definition eco_name :: string where
  "eco_name = CHR 0xE9 # ''co''"

definition art_deco_name :: string where
  "art_deco_name = ''Art D'' @ CHR 0xE9 # ''co''"

definition deco_items :: "pyval list" where
  "deco_items = [PDict [(''name'', PStr ''Deco Art''), (''domain'', PStr ''artdeco.com'')]]"

definition deco_api :: "pyval \<Rightarrow> response option" where
  "deco_api name = Some \<lparr>status_code = 200, json_body = Some (PList deco_items)\<rparr>"

text \<open>An API that answers every query with the two suggestions above, one that answers with a
  server error, one whose body is not JSON, one with an empty list, and one that is
  unreachable.\<close>

definition acme_api :: "pyval \<Rightarrow> response option" where
  "acme_api name = Some \<lparr>status_code = 200, json_body = Some (PList acme_items)\<rparr>"

definition error_api :: "pyval \<Rightarrow> response option" where
  "error_api name = Some \<lparr>status_code = 500, json_body = Some (PList acme_items)\<rparr>"

definition garbled_api :: "pyval \<Rightarrow> response option" where
  "garbled_api name = Some \<lparr>status_code = 200, json_body = None\<rparr>"

definition empty_api :: "pyval \<Rightarrow> response option" where
  "empty_api name = Some \<lparr>status_code = 200, json_body = Some (PList [])\<rparr>"

definition down_api :: "pyval \<Rightarrow> response option" where
  "down_api name = None"

text \<open>The answers of \<open>tldextract\<close> at the inputs of the examples.\<close>

definition demo_tld :: "string \<Rightarrow> string" where
  "demo_tld u =
     (if u = ''https://acme.io/'' then ''acme''
      else if u = ''https://empty.io/'' then ''empty''
      else if u = ''https://broken.io/'' then ''broken''
      else if u = ''acme.io.example.com'' then ''example''
      else if u = ''acme.example.org'' then ''example''
      else [])"

text \<open>A page with a link that \<open>urljoin\<close> cannot split, followed by a link to a contact
  page.\<close>

definition broken_html :: string where
  "broken_html = ''<a href=http://[bad>About</a> <a href=/contact>Contact Us</a>''"

text \<open>A small web: a site that shows an address, a site that shows none and has no links, a
  site with the page above, and nothing else; and a resolver that finds no domain.\<close>

definition demo_http :: "string \<Rightarrow> page option" where
  "demo_http u =
     (if u = ''https://acme.io/''
      then Some \<lparr>resp_text = ''<p>write to jane@acme.io</p>'', resp_url = ''https://acme.io/''\<rparr>
      else if u = ''https://empty.io/''
      then Some \<lparr>resp_text = ''<p>hello</p>'', resp_url = ''https://empty.io/''\<rparr>
      else if u = ''https://broken.io/''
      then Some \<lparr>resp_text = broken_html, resp_url = ''https://broken.io/''\<rparr>
      else None)"

definition demo_resolve :: "string \<Rightarrow> exn + string list" where
  "demo_resolve domain = Inl DNSException"

text \<open>A resolver that knows the mail server of one domain.\<close>

definition mx_resolve :: "string \<Rightarrow> exn + string list" where
  "mx_resolve domain = (if domain = ''acme.io'' then Inr [''mx.acme.io''] else Inl DNSException)"

text \<open>Three anchors, the last with a link that \<open>urljoin\<close> cannot split, and a page with three
  addresses.\<close>

definition about_anchor :: anchor where
  "about_anchor = \<lparr>a_text = ''About'', a_href = ''/about''\<rparr>"

definition contact_anchor :: anchor where
  "contact_anchor = \<lparr>a_text = ''Contact Us'', a_href = ''/contact''\<rparr>"

definition bad_anchor :: anchor where
  "bad_anchor = \<lparr>a_text = ''About'', a_href = ''http://[bad''\<rparr>"

definition acme_html :: string where
  "acme_html =
     ''contact us at jane [at] acme.io or support@unrelated.com <img src=image@2x.png>''"

definition demo_anchors :: "string \<Rightarrow> anchor list" where
  "demo_anchors html = (if html = broken_html then [bad_anchor, contact_anchor] else [])"

text \<open>The answers of \<open>urljoin\<close> on a base that is the root of a site, \<open>https://acme.io/\<close> say:
  a link that is a path from the root replaces the final \<open>/\<close> of the base; any other link of the
  examples is a whole URL and is its own answer, but for the one that cannot be split.\<close>

definition demo_resolved :: "string \<Rightarrow> string \<Rightarrow> string" where
  "demo_resolved base href =
     (case href of
        [] \<Rightarrow> base
      | c # cs \<Rightarrow> if c = CHR ''/'' then butlast base @ href else href)"

definition demo_join :: "string \<Rightarrow> string \<Rightarrow> exn + string" where
  "demo_join base href =
     (if href = ''http://[bad'' then Inl ValueError else Inr (demo_resolved base href))"

definition demo_world :: world where
  "demo_world =
     \<lparr>http_get = demo_http, resolve_mx = demo_resolve, find_anchors = demo_anchors,
      urljoin = demo_join, tld_domain = demo_tld, set_order = length\<rparr>"

section \<open>Strings\<close>

lemma str_in_sublist: "str_in a b = sublist a b"
  by (induction b) (auto simp: sublist_Cons_right)

lemma str_in_Nil: "str_in [] b"
  by (simp add: str_in_sublist)

lemma replace_dot: "replace ''.'' [] d = filter (\<lambda>c. c \<noteq> CHR ''.'') d"
  by (induction d) auto

lemma clean_str_Nil: "clean_str [] = []"
  by (simp add: clean_str_def lower_def)

lemma clean_name_PStr: "clean_name (PStr s) = Inr (clean_str s)"
  by (simp add: clean_name_def clean_str_Nil)

section \<open>The matcher on well-formed suggestions\<close>

lemma suggestion_SomeD:
  assumes "suggestion item = Some (d, n)"
  shows "\<exists>kvs. item = PDict kvs \<and> map_of kvs ''domain'' = Some (PStr d) \<and>
           map_of kvs ''name'' = Some (PStr n)"
  using assms by (cases item) (auto split: option.splits pyval.splits)

lemma match_items_step:
  assumes "suggestion item = Some (d, n)"
  shows "match_items q (item # items) =
           (if rule1 q item then Inr (Some (ApiMatch, ''https://'' @ d))
            else if rule2 q item then Inr (Some (ApiNameMatch, ''https://'' @ d))
            else match_items q items)"
proof -
  from suggestion_SomeD [OF assms] obtain kvs where
    item: "item = PDict kvs" and
    dom: "map_of kvs ''domain'' = Some (PStr d)" and
    nm: "map_of kvs ''name'' = Some (PStr n)"
    by blast
  show ?thesis
    using assms unfolding item
    by (simp add: dom nm clean_name_PStr replace_dot rule1_def rule2_def del: suggestion.simps replace.simps)
qed

lemma match_items_well_formed:
  assumes "\<forall>item \<in> set items. suggestion item \<noteq> None"
  shows "match_items q items = Inr (first_match q items)"
  using assms
proof (induction items)
  case Nil
  show ?case by (simp add: first_match_def)
next
  case (Cons item items)
  then obtain d n where s: "suggestion item = Some (d, n)"
    by auto
  from Cons have ih: "match_items q items = Inr (first_match q items)"
    by simp
  show ?case
    by (simp only: match_items_step [OF s] ih) (simp add: first_match_def s)
qed

section \<open>The shape of a match of the regular expression\<close>

lemma split_no_sep: "sep \<notin> set d \<Longrightarrow> split sep d = [d]"
  by (induction d) auto

lemma split_first_sep: "sep \<notin> set l \<Longrightarrow> split sep (l @ sep # d) = l # split sep d"
  by (induction l) auto

lemma after_at_append: "CHR ''@'' \<notin> set l \<Longrightarrow> after_at (l @ CHR ''@'' # d) = d"
  by (induction l) (auto simp: after_at_def)

lemma split_email_shaped:
  assumes "email_shaped e"
  shows "\<exists>l. split CHR ''@'' e = [l, after_at e]"
proof -
  from assms obtain l d where e: "e = l @ CHR ''@'' # d"
    and l: "CHR ''@'' \<notin> set l" and d: "CHR ''@'' \<notin> set d"
    by (auto simp: email_shaped_def)
  have "split CHR ''@'' e = [l, d]"
    by (simp add: e split_first_sep [OF l] split_no_sep [OF d])
  moreover have "after_at e = d"
    by (simp add: e after_at_append [OF l])
  ultimately show ?thesis by simp
qed

lemma lower_char_at: "(lower_char c = CHR ''@'') = (c = CHR ''@'')"
proof (cases "is_cased_upper c")
  case False
  then show ?thesis by (simp add: lower_char_def)
next
  case True
  then have b: "65 \<le> (of_char c :: nat)" "(of_char c :: nat) \<le> 222"
    by (auto simp: is_cased_upper_def is_upper_def)
  then have "(of_char (char_of ((of_char c :: nat) + 32)) :: nat) = of_char c + 32"
    by simp
  with b have "(of_char (lower_char c) :: nat) \<noteq> 64"
    using True by (simp add: lower_char_def)
  moreover from b have "(of_char c :: nat) \<noteq> 64" by simp
  ultimately show ?thesis by auto
qed

lemma at_in_lower: "(CHR ''@'' \<in> set (lower s)) = (CHR ''@'' \<in> set s)"
proof (induction s)
  case Nil
  show ?case by (simp add: lower_def)
next
  case (Cons c s)
  have "(CHR ''@'' = lower_char c) = (CHR ''@'' = c)"
    using lower_char_at [of c] by auto
  with Cons show ?case by (simp add: lower_def)
qed

lemma lower_email_shaped: "email_shaped e \<Longrightarrow> email_shaped (lower e)"
proof -
  assume "email_shaped e"
  then obtain l d where e: "e = l @ CHR ''@'' # d"
    and l: "CHR ''@'' \<notin> set l" and d: "CHR ''@'' \<notin> set d"
    by (auto simp: email_shaped_def)
  have "lower e = lower l @ CHR ''@'' # lower d"
    by (simp add: e lower_def lower_char_def is_cased_upper_def is_upper_def)
  moreover have "CHR ''@'' \<notin> set (lower l)" "CHR ''@'' \<notin> set (lower d)"
    using l d by (simp_all add: at_in_lower)
  ultimately show "email_shaped (lower e)"
    unfolding email_shaped_def by blast
qed


lemma take_within_run:
  assumes "n \<le> length (takeWhile P xs)" and "x \<in> set (take n xs)"
  shows "P x"
proof -
  have "take n xs = take n (takeWhile P xs @ dropWhile P xs)"
    by simp
  also have "\<dots> = take n (takeWhile P xs)"
    using assms(1) by (simp del: takeWhile_dropWhile_id)
  finally have "x \<in> set (takeWhile P xs)"
    using assms(2) by (auto dest: in_set_takeD)
  then show ?thesis
    by (rule set_takeWhileD [THEN conjunct2])
qed

lemma match_tld_shape:
  assumes "match_tld s = Some m"
  shows "\<exists>t. s = CHR ''.'' # t \<and> m = 1 + length (takeWhile is_alpha t)"
  using assms by (auto simp: match_tld_def split: list.splits if_splits)

lemma match_domain_shape:
  assumes "match_domain s k = Some n"
  shows "\<exists>k' t. 0 < k' \<and> k' \<le> k \<and> drop k' s = CHR ''.'' # t \<and>
           n = k' + 1 + length (takeWhile is_alpha t)"
  using assms
proof (induction k)
  case 0
  then show ?case by simp
next
  case (Suc k)
  show ?case
  proof (cases "match_tld (drop (Suc k) s)")
    case None
    with Suc.prems have "match_domain s k = Some n" by simp
    from Suc.IH [OF this] obtain k' t where
      "0 < k'" "k' \<le> k" "drop k' s = CHR ''.'' # t"
      "n = k' + 1 + length (takeWhile is_alpha t)"
      by blast
    then show ?thesis
      by (intro exI [of _ k'] exI [of _ t]) simp
  next
    case (Some m)
    with Suc.prems have n: "n = Suc k + m" by simp
    from match_tld_shape [OF Some] obtain t where
      "drop (Suc k) s = CHR ''.'' # t" "m = 1 + length (takeWhile is_alpha t)"
      by blast
    with n show ?thesis
      by (intro exI [of _ "Suc k"] exI [of _ t]) simp
  qed
qed

lemma match_local_shape:
  assumes "match_local s l = Some n"
  shows "\<exists>l' rest n'. 0 < l' \<and> l' \<le> l \<and> drop l' s = CHR ''@'' # rest \<and>
           match_domain rest (length (takeWhile is_domain_char rest)) = Some n' \<and>
           n = l' + 1 + n'"
  using assms
proof (induction l)
  case 0
  then show ?case by simp
next
  case (Suc l)
  show ?case
  proof (cases "match_local s l = Some n")
    case True
    from Suc.IH [OF this] obtain l' rest n' where
      "0 < l'" "l' \<le> l" "drop l' s = CHR ''@'' # rest"
      "match_domain rest (length (takeWhile is_domain_char rest)) = Some n'"
      "n = l' + 1 + n'"
      by blast
    then show ?thesis
      by (intro exI [of _ l'] exI [of _ rest] exI [of _ n']) simp
  next
    case False
    with Suc.prems obtain rest n' where
      "drop (Suc l) s = CHR ''@'' # rest"
      "match_domain rest (length (takeWhile is_domain_char rest)) = Some n'"
      "n = Suc l + 1 + n'"
      by (auto split: list.splits if_splits option.splits)
    then show ?thesis
      by (intro exI [of _ "Suc l"] exI [of _ rest] exI [of _ n']) simp
  qed
qed

lemma not_local_at: "\<not> is_local CHR ''@''"
  by (simp add: is_local_def is_lower_def is_upper_def is_digit_def)

lemma not_domain_char_at: "\<not> is_domain_char CHR ''@''"
  by (simp add: is_domain_char_def is_lower_def is_digit_def)

lemma not_alpha_at: "\<not> is_alpha CHR ''@''"
  by (simp add: is_alpha_def is_lower_def is_upper_def)

lemma drop_eq_ConsD: "drop n xs = y # ys \<Longrightarrow> xs = take n xs @ y # ys"
  by (metis append_take_drop_id)

lemma match_email_shaped:
  assumes "match_email s = Some n"
  shows "email_shaped (take n s)"
proof -
  from assms have "match_local s (length (takeWhile is_local s)) = Some n"
    by (simp add: match_email_def)
  from match_local_shape [OF this] obtain l rest n' where
    l: "l \<le> length (takeWhile is_local s)" and
    dl: "drop l s = CHR ''@'' # rest" and
    md: "match_domain rest (length (takeWhile is_domain_char rest)) = Some n'" and
    n: "n = l + 1 + n'"
    by blast
  from match_domain_shape [OF md] obtain k t where
    k: "k \<le> length (takeWhile is_domain_char rest)" and
    dk: "drop k rest = CHR ''.'' # t" and
    n': "n' = k + 1 + length (takeWhile is_alpha t)"
    by blast
  have ll: "l \<le> length s" "k \<le> length rest"
    using dl dk by (auto intro: ccontr)
  have s: "s = take l s @ CHR ''@'' # rest"
    using dl by (rule drop_eq_ConsD)
  have r: "rest = take k rest @ CHR ''.'' # t"
    using dk by (rule drop_eq_ConsD)
  have "take n' rest = take n' (take k rest @ CHR ''.'' # t)"
    using r by simp
  also have "\<dots> = take k rest @ CHR ''.'' # take (length (takeWhile is_alpha t)) t"
    using ll(2) by (simp add: n')
  also have "take (length (takeWhile is_alpha t)) t = takeWhile is_alpha t"
    by (rule takeWhile_eq_take [symmetric])
  finally have tr: "take n' rest = take k rest @ CHR ''.'' # takeWhile is_alpha t" .
  have "take n s = take n (take l s @ CHR ''@'' # rest)"
    using s by simp
  also have "\<dots> = take l s @ CHR ''@'' # take n' rest"
    using ll(1) by (simp add: n)
  finally have tn: "take n s = take l s @ CHR ''@'' # take n' rest" .
  have "CHR ''@'' \<notin> set (take l s)"
    using take_within_run [OF l] not_local_at by blast
  moreover have "CHR ''@'' \<notin> set (take k rest)"
    using take_within_run [OF k] not_domain_char_at by blast
  then have "CHR ''@'' \<notin> set (take n' rest)"
    using not_alpha_at by (auto simp: tr dest: set_takeWhileD)
  ultimately show ?thesis
    unfolding email_shaped_def using tn by blast
qed

lemma findall_shaped: "m \<in> set (findall s) \<Longrightarrow> email_shaped m"
proof (induction s rule: findall.induct)
  case 1
  then show ?case by simp
next
  case (2 c cs)
  show ?case
  proof (cases "match_email (c # cs)")
    case None
    with 2 show ?thesis by simp
  next
    case (Some n)
    with 2 show ?thesis
      using match_email_shaped [OF Some] by auto
  qed
qed


lemma scan_emails_step:
  assumes "email_shaped raw"
  shows "scan_emails site (raw # raws) found =
           scan_emails site raws
             (if passes site (lower raw) then List.insert (lower raw) found else found)"
proof -
  from split_email_shaped [OF lower_email_shaped [OF assms]] obtain l where
    "split CHR ''@'' (lower raw) = [l, after_at (lower raw)]"
    by blast
  then show ?thesis
    by (simp add: passes_def Let_def)
qed

lemma scan_emails_result:
  assumes "\<forall>r \<in> set raws. email_shaped r"
  shows "\<exists>found'. scan_emails site raws found = Inr found' \<and>
           set found' = set found \<union> set (filter (passes site) (map lower raws)) \<and>
           (distinct found \<longrightarrow> distinct found')"
  using assms
proof (induction raws arbitrary: found)
  case Nil
  show ?case by simp
next
  case (Cons raw raws)
  let ?found = "if passes site (lower raw) then List.insert (lower raw) found else found"
  from Cons.prems have sh: "email_shaped raw" and rest: "\<forall>r \<in> set raws. email_shaped r"
    by simp_all
  from Cons.IH [OF rest, of ?found] obtain found' where
    r: "scan_emails site raws ?found = Inr found'" and
    s: "set found' = set ?found \<union> set (filter (passes site) (map lower raws))" and
    d: "distinct ?found \<longrightarrow> distinct found'"
    by blast
  have "scan_emails site (raw # raws) found = Inr found'"
    by (simp only: scan_emails_step [OF sh] r)
  moreover have "set found' = set found \<union> set (filter (passes site) (map lower (raw # raws)))"
    using s by auto
  moreover have "distinct found \<longrightarrow> distinct found'"
    using d by simp
  ultimately show ?case by blast
qed

lemma extract_valid_emails_result:
  "\<exists>es. extract_valid_emails order tld html url = Inr es \<and> distinct es \<and>
     set es = set (filter (passes (lower (tld url))) (map lower (findall (deobfuscate html))))"
proof -
  have "\<forall>r \<in> set (findall (deobfuscate html)). email_shaped r"
    by (simp add: findall_shaped)
  from scan_emails_result [OF this, of "lower (tld url)" "[]"] obtain found where
    "scan_emails (lower (tld url)) (findall (deobfuscate html)) [] = Inr found"
    "set found = set (filter (passes (lower (tld url))) (map lower (findall (deobfuscate html))))"
    "distinct found"
    by auto
  then show ?thesis
    by (simp add: extract_valid_emails_def)
qed

lemma lower_char_idem: "lower_char (lower_char c) = lower_char c"
proof (cases "is_cased_upper c")
  case False
  then show ?thesis by (simp add: lower_char_def)
next
  case True
  then have r: "(65 \<le> (of_char c :: nat) \<and> (of_char c :: nat) \<le> 90) \<or>
      (192 \<le> (of_char c :: nat) \<and> (of_char c :: nat) \<le> 214) \<or>
      (216 \<le> (of_char c :: nat) \<and> (of_char c :: nat) \<le> 222)"
    by (simp add: is_cased_upper_def is_upper_def)
  then have "(of_char (char_of ((of_char c :: nat) + 32)) :: nat) = of_char c + 32"
    by auto
  with r have "\<not> is_cased_upper (char_of ((of_char c :: nat) + 32))"
    by (auto simp: is_cased_upper_def is_upper_def)
  then show ?thesis
    by (simp add: lower_char_def)
qed

lemma lower_idem: "lower (lower s) = lower s"
  by (simp add: lower_def lower_char_idem)

section \<open>Link selection\<close>

lemma find_append_last:
  "find P (xs @ [x]) = (case find P xs of Some y \<Rightarrow> Some y | None \<Rightarrow> if P x then Some x else None)"
  by (induction xs) auto

lemma contact_is_keyword: "str_in ''contact'' s \<Longrightarrow> has_keyword s"
  by (simp add: has_keyword_def TARGET_KEYWORDS_def)

lemma contact_anchor_is_keyword: "is_contact_anchor a \<Longrightarrow> is_keyword_anchor a"
  by (auto simp: is_contact_anchor_def is_keyword_anchor_def contact_is_keyword)

lemma select_link_step:
  "select_link join base (a # as) t =
     (if is_keyword_anchor a then
        (case join base (a_href a) of
           Inl e \<Rightarrow> Inl e
         | Inr link \<Rightarrow>
             if is_contact_anchor a then Inr (Some link)
             else select_link join base as (Some link))
      else select_link join base as t)"
  by (auto simp: Let_def is_contact_anchor_def is_keyword_anchor_def split: sum.splits)

lemma select_link_resolved:
  assumes "\<forall>a \<in> set (filter is_keyword_anchor (scanned as)).
             join base (a_href a) = Inr (j base (a_href a))"
  shows "select_link join base as t =
     Inr (case find is_contact_anchor as of
            Some a \<Rightarrow> Some (j base (a_href a))
          | None \<Rightarrow>
              (case find is_keyword_anchor (rev as) of
                 Some a \<Rightarrow> Some (j base (a_href a))
               | None \<Rightarrow> t))"
  using assms
proof (induction as arbitrary: t)
  case Nil
  show ?case by simp
next
  case (Cons a as)
  show ?case
  proof (cases "is_contact_anchor a")
    case True
    then have "is_keyword_anchor a"
      by (rule contact_anchor_is_keyword)
    with True Cons.prems show ?thesis
      by (simp add: select_link_step del: select_link.simps)
  next
    case False
    with Cons.prems have rest: "\<forall>a \<in> set (filter is_keyword_anchor (scanned as)).
             join base (a_href a) = Inr (j base (a_href a))"
      by simp
    show ?thesis
    proof (cases "is_keyword_anchor a")
      case True
      with False Cons.prems have "join base (a_href a) = Inr (j base (a_href a))"
        by simp
      with True False show ?thesis
        by (simp add: select_link_step Cons.IH [OF rest] find_append_last
            del: select_link.simps split: option.splits)
    next
      case nk: False
      with False show ?thesis
        by (simp add: select_link_step Cons.IH [OF rest] find_append_last
            del: select_link.simps split: option.splits)
    qed
  qed
qed

lemma select_link_raises:
  assumes "\<exists>a \<in> set (filter is_keyword_anchor (scanned as)). isl (join base (a_href a))"
  shows "isl (select_link join base as t)"
  using assms
proof (induction as arbitrary: t)
  case Nil
  then show ?case by simp
next
  case (Cons a as)
  show ?case
  proof (cases "is_keyword_anchor a")
    case False
    then have "\<not> is_contact_anchor a"
      using contact_anchor_is_keyword by blast
    with False Cons.prems
    have "\<exists>a \<in> set (filter is_keyword_anchor (scanned as)). isl (join base (a_href a))"
      by simp
    from Cons.IH [OF this] False show ?thesis
      by (simp add: select_link_step del: select_link.simps)
  next
    case True
    show ?thesis
    proof (cases "join base (a_href a)")
      case (Inl e)
      with True show ?thesis
        by (simp add: select_link_step del: select_link.simps)
    next
      case (Inr link)
      with True Cons.prems have nc: "\<not> is_contact_anchor a"
        by (auto split: if_splits)
      with True Inr Cons.prems
      have "\<exists>a \<in> set (filter is_keyword_anchor (scanned as)). isl (join base (a_href a))"
        by auto
      from Cons.IH [OF this] True Inr nc show ?thesis
        by (simp add: select_link_step del: select_link.simps)
    qed
  qed
qed

lemma scrape_link_raises:
  assumes "u \<noteq> []" and "http_get w u = Some resp"
    and "extract_valid_emails (set_order w) (tld_domain w) (resp_text resp) (resp_url resp) = Inr []"
    and "isl (select_link (urljoin w) (resp_url resp) (find_anchors w (resp_text resp)) None)"
  shows "scrape_sync_email w (Text u) = ([Get u], Inr None)"
proof -
  from assms(4) obtain e where
    "select_link (urljoin w) (resp_url resp) (find_anchors w (resp_text resp)) None = Inl e"
    by (cases "select_link (urljoin w) (resp_url resp) (find_anchors w (resp_text resp)) None")
      simp_all
  then have "candidates w resp = ([], Inl e)"
    using assms(3) by (simp add: candidates_def secondary_emails_def)
  then show ?thesis
    using assms(1,2) by (simp add: scrape_sync_email_def)
qed

section \<open>The client never raises\<close>

lemma sync_clearbit_returns:
  "sync_clearbit get name =
     Inr (case clearbit_try get name of Inl e \<Rightarrow> None | Inr r \<Rightarrow> map_option snd r)"
  by (simp add: sync_clearbit_def split: sum.splits)

lemma match_items_url:
  "match_items q items = Inr (Some (nt, u)) \<Longrightarrow> u \<noteq> []"
proof (induction items)
  case Nil
  then show ?case by simp
next
  case (Cons item items)
  then show ?case
    by (auto split: sum.splits pyval.splits if_splits simp del: replace.simps)
qed

lemma clearbit_try_url:
  "clearbit_try get name = Inr (Some (nt, u)) \<Longrightarrow> u \<noteq> []"
  by (auto simp: clearbit_try_def split: option.splits if_splits sum.splits
      dest: match_items_url)

lemma sync_clearbit_url:
  assumes "sync_clearbit get name = Inr (Some u)"
  shows "u \<noteq> []"
proof -
  from assms obtain nt where "clearbit_try get name = Inr (Some (nt, u))"
    by (auto simp: sync_clearbit_def split: sum.splits)
  then show ?thesis by (rule clearbit_try_url)
qed

section \<open>The batch\<close>

lemma gather_map:
  assumes "\<And>x. x \<in> set xs \<Longrightarrow> f x = Inr (g x)"
  shows "gather (map f xs) = Inr (map g xs)"
  using assms by (induction xs) simp_all

lemma store_urls_fills:
  assumes "i + length urls = length results"
    and "\<forall>u. Some u \<in> set urls \<longrightarrow> u \<noteq> []"
    and "\<forall>j. i \<le> j \<and> j < length results \<longrightarrow> results ! j = None"
  shows "store_urls i urls results = Inr (take i results @ urls)"
  using assms
proof (induction urls arbitrary: i results)
  case Nil
  then show ?case by simp
next
  case (Cons url urls)
  have i: "i < length results"
    using Cons.prems(1) by simp
  show ?case
  proof (cases url)
    case None
    have "store_urls (Suc i) urls results = Inr (take (Suc i) results @ urls)"
      using Cons.prems by (intro Cons.IH) auto
    moreover have "results ! i = None"
      using Cons.prems(3) i by simp
    ultimately show ?thesis
      using None i by (simp add: take_Suc_conv_app_nth)
  next
    case (Some u)
    have u: "u \<noteq> []"
      using Cons.prems(2) Some by simp
    have "store_urls (Suc i) urls (results[i := Some u]) =
            Inr (take (Suc i) (results[i := Some u]) @ urls)"
      using Cons.prems by (intro Cons.IH) auto
    then show ?thesis
      using Some u i by (simp add: take_Suc_conv_app_nth)
  qed
qed

section \<open>The resolver check\<close>

lemma check_mx_records_eq:
  "check_mx_records resolve email =
     (case split CHR ''@'' email of
        l # d # rest \<Rightarrow>
          ([MxQuery d], Inr (case resolve d of Inl e \<Rightarrow> False | Inr rs \<Rightarrow> rs \<noteq> []))
      | _ \<Rightarrow> ([], Inr False))"
  by (simp add: check_mx_records_def check_mx_try_def split: list.splits sum.splits)

lemma str_in_append_left: "str_in a b \<Longrightarrow> str_in a (c @ b)"
  by (induction c) simp_all

section \<open>Properties of scraping_url.py\<close>

text \<open>
  C1. On a response with status 200 whose body is a list of well-formed suggestions, the
  matcher looks at the first three items only, in order; the first item that satisfies rule 1
  (the cleaned query occurs in the domain without its dots) or rule 2 (the cleaned query occurs
  in the cleaned name or the cleaned name in the cleaned query) wins, rule 1 being tried first
  on each item, and the result is \<open>https://\<close> followed by its domain; with no such item the
  result is \<open>None\<close>.
\<close>

theorem domain_matcher_first_match:
  assumes "get name = Some resp" and "status_code resp = 200"
    and "json_body resp = Some (PList items)"
    and "clean_name name = Inr q"
    and "\<forall>item \<in> set (take 3 items). suggestion item \<noteq> None"
  shows "clearbit_try get name = Inr (first_match q (take 3 items)) \<and>
         sync_clearbit get name = Inr (map_option snd (first_match q (take 3 items)))"
proof -
  have m: "match_items q (take 3 items) = Inr (first_match q (take 3 items))"
    using assms(5) by (rule match_items_well_formed)
  have e: "first_match q (take 3 []) = None"
    by (simp add: first_match_def)
  have "clearbit_try get name = Inr (first_match q (take 3 items))"
    using assms(1-4) m e by (cases items) (simp_all add: clearbit_try_def)
  then show ?thesis
    by (simp add: sync_clearbit_def)
qed

theorem domain_matcher_first_match_witness:
  "clean_name (PStr ''Acme Corp'') = Inr ''acme'' \<and>
   clearbit_try acme_api (PStr ''Acme Corp'') = Inr (Some (ApiMatch, ''https://acme.io'')) \<and>
   sync_clearbit acme_api (PStr ''Acme Corp'') = Inr (Some ''https://acme.io'') \<and>
   clean_name (PStr eco_name) = Inr ''co'' \<and>
   sync_clearbit acme_api (PStr eco_name) = Inr (Some ''https://other.com'') \<and>
   clean_name (PStr art_deco_name) = Inr ''artdco'' \<and>
   sync_clearbit deco_api (PStr art_deco_name) = Inr None"
proof -
  have a: "acme_api x = Some \<lparr>status_code = 200, json_body = Some (PList acme_items)\<rparr>" for x
    by (simp add: acme_api_def)
  have d: "deco_api x = Some \<lparr>status_code = 200, json_body = Some (PList deco_items)\<rparr>" for x
    by (simp add: deco_api_def)
  have q: "clean_name (PStr ''Acme Corp'') = Inr ''acme''"
    by code_simp
  have qe: "clean_name (PStr eco_name) = Inr ''co''"
    by code_simp
  have qd: "clean_name (PStr art_deco_name) = Inr ''artdco''"
    by code_simp
  have wf: "\<forall>item \<in> set (take 3 acme_items). suggestion item \<noteq> None"
    by (simp add: acme_items_def)
  have wd: "\<forall>item \<in> set (take 3 deco_items). suggestion item \<noteq> None"
    by (simp add: deco_items_def)
  have f: "first_match ''acme'' (take 3 acme_items) = Some (ApiMatch, ''https://acme.io'')"
    by code_simp
  have fe: "first_match ''co'' (take 3 acme_items) = Some (ApiMatch, ''https://other.com'')"
    by code_simp
  have fd: "first_match ''artdco'' (take 3 deco_items) = None"
    by code_simp
  have 1: "clearbit_try acme_api (PStr ''Acme Corp'') = Inr (Some (ApiMatch, ''https://acme.io'')) \<and>
           sync_clearbit acme_api (PStr ''Acme Corp'') = Inr (Some ''https://acme.io'')"
    using domain_matcher_first_match
      [of acme_api "PStr ''Acme Corp''" _ acme_items "''acme''", OF a _ _ q wf] f
    by simp
  have 2: "sync_clearbit acme_api (PStr eco_name) = Inr (Some ''https://other.com'')"
    using domain_matcher_first_match
      [of acme_api "PStr eco_name" _ acme_items "''co''", OF a _ _ qe wf] fe
    by simp
  have 3: "sync_clearbit deco_api (PStr art_deco_name) = Inr None"
    using domain_matcher_first_match
      [of deco_api "PStr art_deco_name" _ deco_items "''artdco''", OF d _ _ qd wd] fd
    by simp
  from q qe qd 1 2 3 show ?thesis by blast
qed

text \<open>
  C5. For every list of company names, \<open>get_urls_api\<close> returns a list of the same length
  whose entry at each position is what the lookup of the name at that position returned,
  whatever lookups failed.
\<close>

theorem get_urls_api_aligned:
  "\<exists>out. get_urls_api get names = Inr out \<and> length out = length names \<and>
     list_all2 (\<lambda>url name. sync_clearbit get name = Inr url) out names"
proof -
  let ?g = "\<lambda>name. case clearbit_try get name of Inl e \<Rightarrow> None | Inr r \<Rightarrow> map_option snd r"
  have g: "gather (map (fetch_api get) names) = Inr (map ?g names)"
    by (rule gather_map) (simp add: fetch_api_def sync_clearbit_returns)
  have ne: "\<forall>u. Some u \<in> set (map ?g names) \<longrightarrow> u \<noteq> []"
  proof (intro allI impI)
    fix u
    assume "Some u \<in> set (map ?g names)"
    then obtain name where "?g name = Some u" by auto
    then have "sync_clearbit get name = Inr (Some u)"
      by (simp add: sync_clearbit_returns)
    then show "u \<noteq> []" by (rule sync_clearbit_url)
  qed
  have "store_urls 0 (map ?g names) (replicate (length names) None) =
          Inr (take 0 (replicate (length names) None) @ map ?g names)"
    using ne by (intro store_urls_fills) simp_all
  then have "get_urls_api get names = Inr (map ?g names)"
    by (simp add: get_urls_api_def g)
  moreover have "list_all2 (\<lambda>url name. sync_clearbit get name = Inr url) (map ?g names) names"
    by (simp add: list_all2_map1 list_all2_same sync_clearbit_returns)
  ultimately show ?thesis by simp
qed

text \<open>
  C6. When the company name cleans to the empty string (as \<open>None\<close> and the empty name do) and
  the list of suggestions starts with a well-formed item, then, the empty string occurring in
  every domain \<open>any_domain\<close>, rule 1 accepts the first item and the result is \<open>https://\<close> followed
  by its domain.
\<close>

theorem empty_name_matches_first:
  assumes "get name = Some resp" and "status_code resp = 200"
    and "json_body resp = Some (PList (item # items))"
    and "clean_name name = Inr []"
    and "suggestion item = Some (d, n)"
  shows "str_in [] (replace ''.'' [] any_domain) \<and>
         clearbit_try get name = Inr (Some (ApiMatch, ''https://'' @ d)) \<and>
         sync_clearbit get name = Inr (Some (''https://'' @ d))"
proof -
  have r: "rule1 [] item"
    by (simp add: rule1_def assms(5) str_in_Nil)
  have m: "match_items [] (item # take 2 items) = Inr (Some (ApiMatch, ''https://'' @ d))"
    using r by (simp only: match_items_step [OF assms(5)] if_True)
  have t: "take 3 (item # items) = item # take 2 items"
    by (simp add: numeral_3_eq_3 numeral_2_eq_2)
  have "clearbit_try get name = Inr (Some (ApiMatch, ''https://'' @ d))"
    using assms(1-4) by (simp add: clearbit_try_def t m del: match_items.simps take_Cons_numeral)
  then show ?thesis
    by (simp add: sync_clearbit_def str_in_Nil)
qed

theorem empty_name_matches_first_witness:
  "clean_name PNone = Inr [] \<and> clean_name (PStr []) = Inr [] \<and>
   clean_name (PStr ''Inc.'') = Inr [] \<and>
   clean_name (PStr eco_name) = Inr ''co'' \<and>
   sync_clearbit acme_api PNone = Inr (Some ''https://acme.io'') \<and>
   sync_clearbit acme_api (PStr []) = Inr (Some ''https://acme.io'') \<and>
   sync_clearbit acme_api (PStr ''Inc.'') = Inr (Some ''https://acme.io'')"
proof -
  have a: "acme_api x = Some \<lparr>status_code = 200, json_body = Some (PList acme_items)\<rparr>" for x
    by (simp add: acme_api_def)
  have i: "acme_items = PDict [(''name'', PStr ''Acme''), (''domain'', PStr ''acme.io'')] #
             [PDict [(''name'', PStr ''Other''), (''domain'', PStr ''other.com'')]]"
    by (simp add: acme_items_def)
  have s: "suggestion (PDict [(''name'', PStr ''Acme''), (''domain'', PStr ''acme.io'')]) =
             Some (''acme.io'', ''Acme'')"
    by simp
  have c1: "clean_name PNone = Inr []" and c2: "clean_name (PStr []) = Inr []"
    by (simp_all add: clean_name_def)
  have c3: "clean_name (PStr ''Inc.'') = Inr []"
    by code_simp
  have c4: "clean_name (PStr eco_name) = Inr ''co''"
    by code_simp
  show ?thesis
    using empty_name_matches_first [OF a _ _ c1 s] empty_name_matches_first [OF a _ _ c2 s]
      empty_name_matches_first [OF a _ _ c3 s] c1 c2 c3 c4
    by (simp add: i)
qed

text \<open>
  C7. \<open>_sync_clearbit\<close> never raises; it returns \<open>None\<close> when the request raises, when the
  status is not 200, when the body is not JSON, and when the decoded body is empty.
\<close>

theorem suggestion_client_absence:
  "(\<exists>r. sync_clearbit get name = Inr r) \<and>
   (get name = None \<longrightarrow> sync_clearbit get name = Inr None) \<and>
   (\<forall>resp. get name = Some resp \<and> status_code resp \<noteq> 200 \<longrightarrow> sync_clearbit get name = Inr None) \<and>
   (\<forall>resp. get name = Some resp \<and> json_body resp = None \<longrightarrow> sync_clearbit get name = Inr None) \<and>
   (\<forall>resp data. get name = Some resp \<and> json_body resp = Some data \<and> \<not> truthy data \<longrightarrow>
      sync_clearbit get name = Inr None)"
  by (auto simp: sync_clearbit_def clearbit_try_def split: sum.splits)

theorem suggestion_client_absence_witness:
  "sync_clearbit down_api (PStr ''Acme Corp'') = Inr None \<and>
   sync_clearbit error_api (PStr ''Acme Corp'') = Inr None \<and>
   sync_clearbit garbled_api (PStr ''Acme Corp'') = Inr None \<and>
   sync_clearbit empty_api (PStr ''Acme Corp'') = Inr None"
proof -
  let ?n = "PStr ''Acme Corp''"
  have "sync_clearbit down_api ?n = Inr None"
    using suggestion_client_absence [of down_api ?n] by (simp add: down_api_def)
  moreover have "sync_clearbit error_api ?n = Inr None"
    using suggestion_client_absence [of error_api ?n] by (simp add: error_api_def)
  moreover have "sync_clearbit garbled_api ?n = Inr None"
    using suggestion_client_absence [of garbled_api ?n] by (simp add: garbled_api_def)
  moreover have "sync_clearbit empty_api ?n = Inr None"
    using suggestion_client_absence [of empty_api ?n] by (simp add: empty_api_def)
  ultimately show ?thesis by simp
qed

section \<open>Properties of get_email.py\<close>

text \<open>
  C2, as amended. The extractor never raises. Every address it returns is the lowercase form of
  a match of the regular expression in the page text after the three replacements, does not end
  with one of the file extensions, has at most 50 characters, and has the lowercased domain label
  of the site (what \<open>tldextract\<close> gives for the page URL) as a substring of its text behind the
  \<open>@\<close>. On the page \<open>https://acme.io/\<close> the three matches are \<open>jane@acme.io\<close>,
  \<open>support@unrelated.com\<close> and \<open>image@2x.png\<close>, and only the first is returned.
\<close>

theorem extract_valid_emails_filters:
  "(\<exists>es. extract_valid_emails order tld html url = Inr es \<and>
      (\<forall>e \<in> set es.
         lower e = e \<and> \<not> endswith e BAD_EXTENSIONS \<and> length e \<le> 50 \<and>
         str_in (lower (tld url)) (after_at e) \<and>
         e \<in> lower ` set (findall (deobfuscate html)))) \<and>
   findall (deobfuscate acme_html) =
     [''jane@acme.io'', ''support@unrelated.com'', ''image@2x.png''] \<and>
   extract_valid_emails length demo_tld acme_html ''https://acme.io/'' = Inr [''jane@acme.io'']"
proof (intro conjI)
  from extract_valid_emails_result [of order tld html url] obtain es where
    r: "extract_valid_emails order tld html url = Inr es" and
    s: "set es = set (filter (passes (lower (tld url))) (map lower (findall (deobfuscate html))))"
    by blast
  have "lower e = e \<and> \<not> endswith e BAD_EXTENSIONS \<and> length e \<le> 50 \<and>
         str_in (lower (tld url)) (after_at e) \<and>
         e \<in> lower ` set (findall (deobfuscate html))" if "e \<in> set es" for e
  proof -
    from that s obtain raw where
      "raw \<in> set (findall (deobfuscate html))" "e = lower raw" "passes (lower (tld url)) e"
      by auto
    then show ?thesis
      by (simp add: lower_idem passes_def)
  qed
  with r show "\<exists>es. extract_valid_emails order tld html url = Inr es \<and>
      (\<forall>e \<in> set es.
         lower e = e \<and> \<not> endswith e BAD_EXTENSIONS \<and> length e \<le> 50 \<and>
         str_in (lower (tld url)) (after_at e) \<and>
         e \<in> lower ` set (findall (deobfuscate html)))"
    by blast
next
  show "findall (deobfuscate acme_html) =
     [''jane@acme.io'', ''support@unrelated.com'', ''image@2x.png'']"
    by code_simp
next
  show "extract_valid_emails length demo_tld acme_html ''https://acme.io/'' = Inr [''jane@acme.io'']"
    by code_simp
qed

theorem extract_valid_emails_filters_witness:
  "lower ''jane@acme.io'' = ''jane@acme.io'' \<and>
   \<not> endswith ''jane@acme.io'' BAD_EXTENSIONS \<and>
   length ''jane@acme.io'' \<le> 50 \<and>
   str_in (lower (demo_tld ''https://acme.io/'')) (after_at ''jane@acme.io'')"
proof -
  note t = extract_valid_emails_filters [of length demo_tld acme_html "''https://acme.io/''"]
  from t [THEN conjunct1] obtain es where
    r: "extract_valid_emails length demo_tld acme_html ''https://acme.io/'' = Inr es" and
    a: "\<forall>e \<in> set es.
         lower e = e \<and> \<not> endswith e BAD_EXTENSIONS \<and> length e \<le> 50 \<and>
         str_in (lower (demo_tld ''https://acme.io/'')) (after_at e) \<and>
         e \<in> lower ` set (findall (deobfuscate acme_html))"
    by blast
  from r t [THEN conjunct2, THEN conjunct2] have "es = [''jane@acme.io'']"
    by simp
  then have "''jane@acme.io'' \<in> set es"
    by simp
  with a show ?thesis
    by blast
qed

text \<open>
  The domain test in the words of the specification, which parses the domain of the candidate
  too, is not the test of the program: on the site \<open>https://acme.io/\<close> the address
  \<open>user@acme.example.org\<close> is returned, and its registrable domain, \<open>example\<close>, does not
  contain \<open>acme\<close>.
\<close>

theorem spec_domain_filter_counterexample:
  "extract_valid_emails length demo_tld ''mail user@acme.example.org'' ''https://acme.io/'' =
     Inr [''user@acme.example.org''] \<and>
   \<not> spec_domain_ok demo_tld ''https://acme.io/'' ''user@acme.example.org''"
proof
  show "extract_valid_emails length demo_tld ''mail user@acme.example.org'' ''https://acme.io/'' =
     Inr [''user@acme.example.org'']"
    by code_simp
next
  show "\<not> spec_domain_ok demo_tld ''https://acme.io/'' ''user@acme.example.org''"
    by code_simp
qed

text \<open>
  C3. With an absent, missing or empty URL the scraper returns \<open>None\<close> and does nothing on the network.
  When the fetch of the home page raises, it returns \<open>None\<close> and the fetch of the home page is
  the only thing it did on the network. When there are candidates and the first one fails the
  MX check, it returns \<open>None\<close>, which is also what it returns when there is no candidate.
\<close>

theorem site_scraper_absence:
  "scrape_sync_email w Absent = ([], Inr None) \<and>
   scrape_sync_email w NaN = ([], Inr None) \<and>
   scrape_sync_email w (Text []) = ([], Inr None) \<and>
   (u \<noteq> [] \<and> http_get w u = None \<longrightarrow> scrape_sync_email w (Text u) = ([Get u], Inr None)) \<and>
   (\<forall>resp evs c cs.
      u \<noteq> [] \<and> http_get w u = Some resp \<and> candidates w resp = (evs, Inr (c # cs)) \<and>
      snd (check_mx_records (resolve_mx w) c) = Inr False \<longrightarrow>
      snd (scrape_sync_email w (Text u)) = Inr None) \<and>
   (\<forall>resp evs.
      u \<noteq> [] \<and> http_get w u = Some resp \<and> candidates w resp = (evs, Inr []) \<longrightarrow>
      snd (scrape_sync_email w (Text u)) = Inr None)"
proof (intro conjI allI impI)
  show "scrape_sync_email w Absent = ([], Inr None)"
    by (simp add: scrape_sync_email_def)
next
  show "scrape_sync_email w NaN = ([], Inr None)"
    by (simp add: scrape_sync_email_def)
next
  show "scrape_sync_email w (Text []) = ([], Inr None)"
    by (simp add: scrape_sync_email_def)
next
  assume "u \<noteq> [] \<and> http_get w u = None"
  then show "scrape_sync_email w (Text u) = ([Get u], Inr None)"
    by (simp add: scrape_sync_email_def)
next
  fix resp evs c cs
  assume h: "u \<noteq> [] \<and> http_get w u = Some resp \<and> candidates w resp = (evs, Inr (c # cs)) \<and>
      snd (check_mx_records (resolve_mx w) c) = Inr False"
  obtain evs' r where m: "check_mx_records (resolve_mx w) c = (evs', r)"
    by (cases "check_mx_records (resolve_mx w) c")
  with h have "r = Inr False" by simp
  with m have "verify_first w (c # cs) = (evs', Inr None)"
    by (simp add: verify_first_def)
  with h show "snd (scrape_sync_email w (Text u)) = Inr None"
    by (simp add: scrape_sync_email_def)
next
  fix resp evs
  assume "u \<noteq> [] \<and> http_get w u = Some resp \<and> candidates w resp = (evs, Inr [])"
  then show "snd (scrape_sync_email w (Text u)) = Inr None"
    by (simp add: scrape_sync_email_def verify_first_def)
qed


theorem site_scraper_absence_witness:
  "scrape_sync_email demo_world (Text ''https://down.io/'') = ([Get ''https://down.io/''], Inr None) \<and>
   snd (scrape_sync_email demo_world (Text ''https://acme.io/'')) = Inr None \<and>
   snd (scrape_sync_email demo_world (Text ''https://empty.io/'')) = Inr None"
proof -
  let ?acme = "\<lparr>resp_text = ''<p>write to jane@acme.io</p>'', resp_url = ''https://acme.io/''\<rparr>"
  let ?empty = "\<lparr>resp_text = ''<p>hello</p>'', resp_url = ''https://empty.io/''\<rparr>"
  have d: "''https://down.io/'' \<noteq> [] \<and> http_get demo_world ''https://down.io/'' = None"
    by (simp add: demo_world_def demo_http_def)
  have a: "''https://acme.io/'' \<noteq> [] \<and> http_get demo_world ''https://acme.io/'' = Some ?acme"
    by (simp add: demo_world_def demo_http_def)
  have e: "''https://empty.io/'' \<noteq> [] \<and> http_get demo_world ''https://empty.io/'' = Some ?empty"
    by (simp add: demo_world_def demo_http_def)
  have ca: "candidates demo_world ?acme = ([], Inr (''jane@acme.io'' # []))"
    by code_simp
  have ce: "candidates demo_world ?empty = ([], Inr [])"
    by code_simp
  have mx: "snd (check_mx_records (resolve_mx demo_world) ''jane@acme.io'') = Inr False"
    by code_simp
  have 1: "scrape_sync_email demo_world (Text ''https://down.io/'') =
             ([Get ''https://down.io/''], Inr None)"
    using site_scraper_absence [of demo_world "''https://down.io/''", THEN conjunct2,
        THEN conjunct2, THEN conjunct2, THEN conjunct1] d
    by blast
  have 2: "snd (scrape_sync_email demo_world (Text ''https://acme.io/'')) = Inr None"
    using site_scraper_absence [of demo_world "''https://acme.io/''", THEN conjunct2,
        THEN conjunct2, THEN conjunct2, THEN conjunct2, THEN conjunct1] a ca mx
    by blast
  have 3: "snd (scrape_sync_email demo_world (Text ''https://empty.io/'')) = Inr None"
    using site_scraper_absence [of demo_world "''https://empty.io/''", THEN conjunct2,
        THEN conjunct2, THEN conjunct2, THEN conjunct2, THEN conjunct2] e ce
    by blast
  from 1 2 3 show ?thesis by blast
qed

text \<open>
  C4, as amended. Where \<open>urljoin\<close> answers for the \<open>href\<close> of every anchor with a keyword that
  the loop visits, the link chosen is the first anchor whose text or \<open>href\<close> contains \<open>contact\<close>
  (in any case), when there is one, wherever the other anchors with a keyword stand; otherwise
  it is the last anchor with a keyword, a later one replacing an earlier one; the \<open>href\<close> of the
  chosen anchor is joined to the base URL; without an anchor with a keyword the result is
  \<open>None\<close>. Where \<open>urljoin\<close> raises on one of these anchors the loop raises, no link is chosen,
  and the scraper, which had found no address on the home page, returns \<open>None\<close> after that one
  fetch.
\<close>

theorem link_selector_resolved_priority:
  "((\<forall>a \<in> set (filter is_keyword_anchor (scanned anchors)).
       join base (a_href a) = Inr (j base (a_href a))) \<longrightarrow>
    select_link join base anchors None =
      Inr (case find is_contact_anchor anchors of
             Some a \<Rightarrow> Some (j base (a_href a))
           | None \<Rightarrow> map_option (\<lambda>a. j base (a_href a)) (find is_keyword_anchor (rev anchors)))) \<and>
   ((\<exists>a \<in> set (filter is_keyword_anchor (scanned anchors)). isl (join base (a_href a))) \<longrightarrow>
    isl (select_link join base anchors None)) \<and>
   (u \<noteq> [] \<and> http_get w u = Some resp \<and>
    extract_valid_emails (set_order w) (tld_domain w) (resp_text resp) (resp_url resp) = Inr [] \<and>
    isl (select_link (urljoin w) (resp_url resp) (find_anchors w (resp_text resp)) None) \<longrightarrow>
    scrape_sync_email w (Text u) = ([Get u], Inr None))"
proof (intro conjI impI)
  assume a: "\<forall>a \<in> set (filter is_keyword_anchor (scanned anchors)).
       join base (a_href a) = Inr (j base (a_href a))"
  have "(case find is_keyword_anchor (rev anchors) of
           Some a \<Rightarrow> Some (j base (a_href a))
         | None \<Rightarrow> None) =
        map_option (\<lambda>a. j base (a_href a)) (find is_keyword_anchor (rev anchors))"
    by (simp split: option.splits)
  with select_link_resolved [where as = anchors and join = join and base = base and j = j and t = None, OF a]
  show "select_link join base anchors None =
      Inr (case find is_contact_anchor anchors of
             Some a \<Rightarrow> Some (j base (a_href a))
           | None \<Rightarrow> map_option (\<lambda>a. j base (a_href a)) (find is_keyword_anchor (rev anchors)))"
    by (simp split: option.splits)
next
  assume "\<exists>a \<in> set (filter is_keyword_anchor (scanned anchors)). isl (join base (a_href a))"
  then show "isl (select_link join base anchors None)"
    by (rule select_link_raises)
next
  assume "u \<noteq> [] \<and> http_get w u = Some resp \<and>
    extract_valid_emails (set_order w) (tld_domain w) (resp_text resp) (resp_url resp) = Inr [] \<and>
    isl (select_link (urljoin w) (resp_url resp) (find_anchors w (resp_text resp)) None)"
  then show "scrape_sync_email w (Text u) = ([Get u], Inr None)"
    by (blast intro: scrape_link_raises)
qed

theorem link_selector_resolved_priority_witness:
  "select_link demo_join ''https://acme.io/'' [about_anchor, contact_anchor] None =
     Inr (Some ''https://acme.io/contact'') \<and>
   select_link demo_join ''https://acme.io/'' [contact_anchor, about_anchor] None =
     Inr (Some ''https://acme.io/contact'') \<and>
   select_link demo_join ''https://acme.io/'' [about_anchor] None =
     Inr (Some ''https://acme.io/about'') \<and>
   select_link demo_join ''https://acme.io/'' [] None = Inr None \<and>
   isl (select_link demo_join ''https://acme.io/'' [bad_anchor, contact_anchor] None) \<and>
   scrape_sync_email demo_world (Text ''https://broken.io/'') =
     ([Get ''https://broken.io/''], Inr None)"
proof -
  let ?base = "''https://acme.io/''"
  let ?broken = "\<lparr>resp_text = broken_html, resp_url = ''https://broken.io/''\<rparr>"
  note t = link_selector_resolved_priority
  have r1: "\<forall>a \<in> set (filter is_keyword_anchor (scanned [about_anchor, contact_anchor])).
       demo_join ?base (a_href a) = Inr (demo_resolved ?base (a_href a))"
    by code_simp
  have r2: "\<forall>a \<in> set (filter is_keyword_anchor (scanned [contact_anchor, about_anchor])).
       demo_join ?base (a_href a) = Inr (demo_resolved ?base (a_href a))"
    by code_simp
  have r3: "\<forall>a \<in> set (filter is_keyword_anchor (scanned [about_anchor])).
       demo_join ?base (a_href a) = Inr (demo_resolved ?base (a_href a))"
    by code_simp
  have r4: "\<forall>a \<in> set (filter is_keyword_anchor (scanned [])).
       demo_join ?base (a_href a) = Inr (demo_resolved ?base (a_href a))"
    by simp
  have e1: "(case find is_contact_anchor [about_anchor, contact_anchor] of
             Some a \<Rightarrow> Some (demo_resolved ?base (a_href a))
           | None \<Rightarrow> map_option (\<lambda>a. demo_resolved ?base (a_href a))
               (find is_keyword_anchor (rev [about_anchor, contact_anchor]))) =
          Some ''https://acme.io/contact''"
    by code_simp
  have e2: "(case find is_contact_anchor [contact_anchor, about_anchor] of
             Some a \<Rightarrow> Some (demo_resolved ?base (a_href a))
           | None \<Rightarrow> map_option (\<lambda>a. demo_resolved ?base (a_href a))
               (find is_keyword_anchor (rev [contact_anchor, about_anchor]))) =
          Some ''https://acme.io/contact''"
    by code_simp
  have e3: "(case find is_contact_anchor [about_anchor] of
             Some a \<Rightarrow> Some (demo_resolved ?base (a_href a))
           | None \<Rightarrow> map_option (\<lambda>a. demo_resolved ?base (a_href a))
               (find is_keyword_anchor (rev [about_anchor]))) =
          Some ''https://acme.io/about''"
    by code_simp
  have 1: "select_link demo_join ?base [about_anchor, contact_anchor] None =
             Inr (Some ''https://acme.io/contact'')"
    using t [where j = demo_resolved and join = demo_join and base = ?base
        and anchors = "[about_anchor, contact_anchor]", THEN conjunct1, THEN mp, OF r1] e1 by simp
  have 2: "select_link demo_join ?base [contact_anchor, about_anchor] None =
             Inr (Some ''https://acme.io/contact'')"
    using t [where j = demo_resolved and join = demo_join and base = ?base
        and anchors = "[contact_anchor, about_anchor]", THEN conjunct1, THEN mp, OF r2] e2 by simp
  have 3: "select_link demo_join ?base [about_anchor] None = Inr (Some ''https://acme.io/about'')"
    using t [where j = demo_resolved and join = demo_join and base = ?base
        and anchors = "[about_anchor]", THEN conjunct1, THEN mp, OF r3] e3 by simp
  have 4: "select_link demo_join ?base [] None = Inr None"
    using t [where j = demo_resolved and join = demo_join and base = ?base
        and anchors = "[]", THEN conjunct1, THEN mp, OF r4] by simp
  have b: "\<exists>a \<in> set (filter is_keyword_anchor (scanned [bad_anchor, contact_anchor])).
       isl (demo_join ?base (a_href a))"
    by code_simp
  have 5: "isl (select_link demo_join ?base [bad_anchor, contact_anchor] None)"
    using t [where join = demo_join and base = ?base
        and anchors = "[bad_anchor, contact_anchor]", THEN conjunct2, THEN conjunct1, THEN mp, OF b] .
  have h: "''https://broken.io/'' \<noteq> [] \<and> http_get demo_world ''https://broken.io/'' = Some ?broken \<and>
    extract_valid_emails (set_order demo_world) (tld_domain demo_world) (resp_text ?broken)
      (resp_url ?broken) = Inr [] \<and>
    isl (select_link (urljoin demo_world) (resp_url ?broken)
      (find_anchors demo_world (resp_text ?broken)) None)"
    by code_simp
  have 6: "scrape_sync_email demo_world (Text ''https://broken.io/'') =
     ([Get ''https://broken.io/''], Inr None)"
    using t [where w = demo_world and u = "''https://broken.io/''" and resp = ?broken,
        THEN conjunct2, THEN conjunct2, THEN mp, OF h] .
  from 1 2 3 4 5 6 show ?thesis by blast
qed

text \<open>
  Without the condition on \<open>urljoin\<close> the choice of the first anchor with \<open>contact\<close> fails: on a
  page where an anchor with a keyword and a link that cannot be split comes first, the anchor
  with \<open>contact\<close> is never reached, and the scraper returns \<open>None\<close> without a second fetch.
\<close>

theorem link_selector_priority_counterexample:
  "is_contact_anchor contact_anchor \<and>
   select_link demo_join ''https://broken.io/'' [bad_anchor, contact_anchor] None = Inl ValueError \<and>
   demo_join ''https://broken.io/'' (a_href contact_anchor) = Inr ''https://broken.io/contact'' \<and>
   scrape_sync_email demo_world (Text ''https://broken.io/'') =
     ([Get ''https://broken.io/''], Inr None)"
proof (intro conjI)
  show "is_contact_anchor contact_anchor"
    by code_simp
  show "select_link demo_join ''https://broken.io/'' [bad_anchor, contact_anchor] None =
          Inl ValueError"
    by code_simp
  show "demo_join ''https://broken.io/'' (a_href contact_anchor) = Inr ''https://broken.io/contact''"
    by code_simp
  show "scrape_sync_email demo_world (Text ''https://broken.io/'') =
     ([Get ''https://broken.io/''], Inr None)"
    by code_simp
qed

text \<open>
  C8. \<open>check_mx_records\<close> never raises. It returns \<open>True\<close> exactly when the string splits at
  \<open>@\<close> into at least two parts and the query for the second part is answered with one record or
  more; on a string without \<open>@\<close> it returns \<open>False\<close> without a query; on an address with one
  \<open>@\<close> the query is for the text behind it, and a query that raises gives \<open>False\<close>.
\<close>

theorem check_mx_records_total:
  "(\<exists>b. snd (check_mx_records resolve email) = Inr b) \<and>
   (snd (check_mx_records resolve email) = Inr True \<longleftrightarrow>
      (\<exists>l d rest rs. split CHR ''@'' email = l # d # rest \<and> resolve d = Inr rs \<and> rs \<noteq> [])) \<and>
   (CHR ''@'' \<notin> set email \<longrightarrow> check_mx_records resolve email = ([], Inr False)) \<and>
   (\<forall>l d. email = l @ CHR ''@'' # d \<and> CHR ''@'' \<notin> set l \<and> CHR ''@'' \<notin> set d \<longrightarrow>
      check_mx_records resolve email =
        ([MxQuery d], Inr (case resolve d of Inl e \<Rightarrow> False | Inr rs \<Rightarrow> rs \<noteq> [])))"
proof (intro conjI allI impI)
  show "\<exists>b. snd (check_mx_records resolve email) = Inr b"
    by (auto simp: check_mx_records_eq split: list.splits)
next
  show "snd (check_mx_records resolve email) = Inr True \<longleftrightarrow>
      (\<exists>l d rest rs. split CHR ''@'' email = l # d # rest \<and> resolve d = Inr rs \<and> rs \<noteq> [])"
  proof (cases "split CHR ''@'' email")
    case Nil
    then show ?thesis by (simp add: check_mx_records_eq)
  next
    case (Cons l ds)
    show ?thesis
    proof (cases ds)
      case Nil
      with Cons show ?thesis by (simp add: check_mx_records_eq)
    next
      case (Cons d rest)
      with \<open>split CHR ''@'' email = l # ds\<close> show ?thesis
        by (cases "resolve d") (simp_all add: check_mx_records_eq)
    qed
  qed
next
  assume "CHR ''@'' \<notin> set email"
  then show "check_mx_records resolve email = ([], Inr False)"
    by (simp add: check_mx_records_eq split_no_sep)
next
  fix l d
  assume "email = l @ CHR ''@'' # d \<and> CHR ''@'' \<notin> set l \<and> CHR ''@'' \<notin> set d"
  then show "check_mx_records resolve email =
        ([MxQuery d], Inr (case resolve d of Inl e \<Rightarrow> False | Inr rs \<Rightarrow> rs \<noteq> []))"
    by (simp add: check_mx_records_eq split_first_sep split_no_sep)
qed


theorem check_mx_records_total_witness:
  "check_mx_records mx_resolve ''jane@acme.io'' = ([MxQuery ''acme.io''], Inr True) \<and>
   check_mx_records mx_resolve ''jane@nowhere.io'' = ([MxQuery ''nowhere.io''], Inr False) \<and>
   check_mx_records mx_resolve ''no at sign'' = ([], Inr False)"
proof -
  have ra: "mx_resolve ''acme.io'' = Inr [''mx.acme.io'']"
    and rb: "mx_resolve ''nowhere.io'' = Inl DNSException"
    by (simp_all add: mx_resolve_def)
  have 1: "check_mx_records mx_resolve ''jane@acme.io'' = ([MxQuery ''acme.io''], Inr True)"
    using check_mx_records_total [of mx_resolve "''jane@acme.io''", THEN conjunct2,
        THEN conjunct2, THEN conjunct2, rule_format, where l = "''jane''" and d = "''acme.io''"]
    by (simp add: ra)
  have 2: "check_mx_records mx_resolve ''jane@nowhere.io'' =
             ([MxQuery ''nowhere.io''], Inr False)"
    using check_mx_records_total [of mx_resolve "''jane@nowhere.io''", THEN conjunct2,
        THEN conjunct2, THEN conjunct2, rule_format, where l = "''jane''" and d = "''nowhere.io''"]
    by (simp add: rb)
  have 3: "check_mx_records mx_resolve ''no at sign'' = ([], Inr False)"
    using check_mx_records_total [of mx_resolve "''no at sign''", THEN conjunct2,
        THEN conjunct2, THEN conjunct1]
    by simp
  from 1 2 3 show ?thesis by simp
qed

text \<open>
  C9. Two runs of the extractor on the same page text and URL return the same set of addresses,
  whatever the order in which each run enumerates its set, and neither run raises.
\<close>

theorem extract_valid_emails_same_set:
  "\<exists>es es'. extract_valid_emails order tld html url = Inr es \<and>
     extract_valid_emails order' tld html url = Inr es' \<and>
     distinct es \<and> distinct es' \<and> set es = set es'"
proof -
  from extract_valid_emails_result [of order tld html url] obtain es where
    "extract_valid_emails order tld html url = Inr es" "distinct es"
    "set es = set (filter (passes (lower (tld url))) (map lower (findall (deobfuscate html))))"
    by blast
  moreover from extract_valid_emails_result [of order' tld html url] obtain es' where
    "extract_valid_emails order' tld html url = Inr es'" "distinct es'"
    "set es' = set (filter (passes (lower (tld url))) (map lower (findall (deobfuscate html))))"
    by blast
  ultimately show ?thesis by simp
qed

text \<open>
  C10. The addresses returned are exactly the lowercased matches that pass the extension test
  and the length test and that have the lowercased domain label of the site as a substring of
  their text behind the \<open>@\<close>. So a domain that passes still passes with a subdomain in front,
  and on the site \<open>https://acme.io/\<close>, whose label is \<open>acme\<close>, the address
  \<open>user@acme.io.example.com\<close>, of registrable domain \<open>example\<close>, is returned.
\<close>

theorem domain_filter_raw_substring:
  "(\<exists>es. extract_valid_emails order tld html url = Inr es \<and>
      set es =
        set (filter
               (\<lambda>e. \<not> endswith e BAD_EXTENSIONS \<and> length e \<le> 50 \<and>
                    str_in (lower (tld url)) (after_at e))
               (map lower (findall (deobfuscate html))))) \<and>
   (str_in site d \<longrightarrow> str_in site (sub @ CHR ''.'' # d)) \<and>
   demo_tld ''https://acme.io/'' = ''acme'' \<and>
   demo_tld ''acme.io.example.com'' = ''example'' \<and>
   extract_valid_emails length demo_tld ''mail user@acme.io.example.com'' ''https://acme.io/'' =
     Inr [''user@acme.io.example.com'']"
proof (intro conjI impI)
  have p: "passes s = (\<lambda>e. \<not> endswith e BAD_EXTENSIONS \<and> length e \<le> 50 \<and> str_in s (after_at e))"
    for s
    by (rule ext) (simp add: passes_def)
  from extract_valid_emails_result [of order tld html url]
  show "\<exists>es. extract_valid_emails order tld html url = Inr es \<and>
      set es =
        set (filter
               (\<lambda>e. \<not> endswith e BAD_EXTENSIONS \<and> length e \<le> 50 \<and>
                    str_in (lower (tld url)) (after_at e))
               (map lower (findall (deobfuscate html))))"
    unfolding p by blast
next
  assume "str_in site d"
  then have "str_in site ((sub @ ''.'') @ d)"
    by (rule str_in_append_left)
  then show "str_in site (sub @ CHR ''.'' # d)"
    by simp
next
  show "demo_tld ''https://acme.io/'' = ''acme''"
    by (simp add: demo_tld_def)
next
  show "demo_tld ''acme.io.example.com'' = ''example''"
    by (simp add: demo_tld_def)
next
  show "extract_valid_emails length demo_tld ''mail user@acme.io.example.com'' ''https://acme.io/'' =
     Inr [''user@acme.io.example.com'']"
    by code_simp
qed

theorem domain_filter_raw_substring_witness:
  "str_in ''acme'' ''acme.io'' \<and> str_in ''acme'' (''mail'' @ CHR ''.'' # ''acme.io'')"
proof -
  have a: "str_in ''acme'' ''acme.io''"
    by code_simp
  with domain_filter_raw_substring [of length demo_tld "[]" "[]" "''acme''" "''acme.io''" "''mail''",
      THEN conjunct2, THEN conjunct1]
  show ?thesis by blast
qed

end
